theory Spec2Isabelle
  imports Complex_Main
begin

section \<open>Ant colony simulation: the program\<close>

text \<open>
  The program is \<^verbatim>\<open>ant_simulation.py\<close>: a colony of ants on a bounded grid,
  coupled through a pheromone field. Python floats are modelled as real numbers
  (exact arithmetic), Python ints as \<open>int\<close>. The module constants are gathered
  in a record, so that statements about other grid sizes and rates can be made;
  \<open>default_config\<close> holds the values written in the file.
\<close>

subsection \<open>Configuration constants\<close>

type_synonym coord = "int \<times> int"

record config =
  WIDTH :: int
  HEIGHT :: int
  ANT_COUNT :: int
  NEST :: coord
  FOOD :: coord
  EVAPORATION :: real
  DEPOSIT :: real


text \<open>Directions: up, down, left, right.\<close>

definition DIRECTIONS :: "coord list" where
  "DIRECTIONS = [(- 1, 0), (1, 0), (0, - 1), (0, 1)]"

subsection \<open>Python lists and the pheromone field\<close>

datatype error = IndexError

text \<open>
  Indexing a Python list of length \<open>len\<close>: \<open>0 .. len - 1\<close> address the entries
  from the front, \<open>-len .. -1\<close> from the back, and any other index raises
  \<open>IndexError\<close>. \<open>py_index\<close> gives the position addressed, if any.
\<close>

definition py_index :: "nat \<Rightarrow> int \<Rightarrow> nat option" where
  "py_index len i =
     (if 0 \<le> i \<and> i < int len then Some (nat i)
      else if - int len \<le> i \<and> i < 0 then Some (nat (int len + i))
      else None)"

text \<open>\<open>xs[i]\<close> and \<open>xs[i] = v\<close>.\<close>

definition py_get :: "'a list \<Rightarrow> int \<Rightarrow> error + 'a" where
  "py_get xs i = (case py_index (length xs) i of None \<Rightarrow> Inl IndexError | Some j \<Rightarrow> Inr (xs ! j))"

definition py_set :: "'a list \<Rightarrow> int \<Rightarrow> 'a \<Rightarrow> error + 'a list" where
  "py_set xs i v =
     (case py_index (length xs) i of None \<Rightarrow> Inl IndexError | Some j \<Rightarrow> Inr (xs[j := v]))"

type_synonym field = "real list list"

text \<open>\<open>pheromones[y][x]\<close>, the read.\<close>

definition cell :: "field \<Rightarrow> coord \<Rightarrow> error + real" where
  "cell ph c =
     (case py_get ph (snd c) of
        Inl e \<Rightarrow> Inl e
      | Inr row \<Rightarrow> py_get row (fst c))"

text \<open>
  \<open>pheromones[y][x] += d\<close> and \<open>pheromones[y][x] *= m\<close>: the row is fetched, its
  entry read, combined and stored back into the same row object.
\<close>

definition cell_update :: "(real \<Rightarrow> real) \<Rightarrow> field \<Rightarrow> coord \<Rightarrow> error + field" where
  "cell_update f ph c =
     (case py_get ph (snd c) of
        Inl e \<Rightarrow> Inl e
      | Inr row \<Rightarrow>
          (case py_get row (fst c) of
             Inl e \<Rightarrow> Inl e
           | Inr v \<Rightarrow>
               (case py_set row (fst c) (f v) of
                  Inl e \<Rightarrow> Inl e
                | Inr row' \<Rightarrow> py_set ph (snd c) row')))"

text \<open>The test \<open>0 <= nx < WIDTH and 0 <= ny < HEIGHT\<close> of \<open>Ant.move\<close>.\<close>

definition in_grid :: "config \<Rightarrow> coord \<Rightarrow> bool" where
  "in_grid cfg c \<longleftrightarrow> 0 \<le> fst c \<and> fst c < WIDTH cfg \<and> 0 \<le> snd c \<and> snd c < HEIGHT cfg"

subsection \<open>The ant\<close>

record ant =
  ant_id :: int
  pos :: coord
  carrying :: bool

text \<open>\<open>Ant.__init__\<close>.\<close>

definition new_ant :: "config \<Rightarrow> int \<Rightarrow> ant" where
  "new_ant cfg idx = \<lparr>ant_id = idx, pos = NEST cfg, carrying = False\<rparr>"

text \<open>
  The first loop of \<open>Ant.move\<close>: the in-grid neighbours in the order of
  \<open>DIRECTIONS\<close>, each with its weight. The two lists \<open>candidates\<close> and
  \<open>weights\<close> of the source grow together and are only read zipped, so the model
  keeps one list of pairs.
\<close>

fun neighbours :: "config \<Rightarrow> field \<Rightarrow> coord \<Rightarrow> coord list \<Rightarrow> error + (coord \<times> real) list" where
  "neighbours cfg ph p [] = Inr []"
| "neighbours cfg ph p (d # ds) =
     (let n = (fst p + fst d, snd p + snd d) in
      if in_grid cfg n then
        (case cell ph n of
           Inl e \<Rightarrow> Inl e
         | Inr v \<Rightarrow>
             (case neighbours cfg ph p ds of
                Inl e \<Rightarrow> Inl e
              | Inr cws \<Rightarrow> Inr ((n, 1 + v) # cws)))
      else neighbours cfg ph p ds)"

text \<open>
  The second loop of \<open>Ant.move\<close>: the first candidate whose cumulative weight
  reaches the draw; \<open>None\<close> when the loop ends without \<open>break\<close>.
\<close>

fun pick :: "real \<Rightarrow> real \<Rightarrow> (coord \<times> real) list \<Rightarrow> coord option" where
  "pick r cumulative [] = None"
| "pick r cumulative ((n, w) # rest) =
     (let cumulative' = cumulative + w in
      if r \<le> cumulative' then Some n else pick r cumulative' rest)"

text \<open>
  \<open>random.uniform(a, b)\<close> is \<open>a + (b - a) * random()\<close>. The generator is a
  sequence \<open>us\<close> of unit draws and the number of draws taken so far.
\<close>

definition uniform :: "real \<Rightarrow> real \<Rightarrow> real \<Rightarrow> real" where
  "uniform a b u = a + (b - a) * u"

definition move :: "config \<Rightarrow> (nat \<Rightarrow> real) \<Rightarrow> ant \<Rightarrow> field \<Rightarrow> nat \<Rightarrow> error + (ant \<times> nat)" where
  "move cfg us a ph k =
     (case neighbours cfg ph (pos a) DIRECTIONS of
        Inl e \<Rightarrow> Inl e
      | Inr cws \<Rightarrow>
          (let total = sum_list (map snd cws);
               r = uniform 0 total (us k)
           in case pick r 0 cws of
                None \<Rightarrow> Inr (a, Suc k)
              | Some n \<Rightarrow> Inr (a\<lparr>pos := n\<rparr>, Suc k)))"

text \<open>\<open>Ant.step\<close>: the ant, the shared field and the generator position after it.\<close>

definition step :: "config \<Rightarrow> (nat \<Rightarrow> real) \<Rightarrow> ant \<Rightarrow> field \<Rightarrow> nat \<Rightarrow> error + (ant \<times> field \<times> nat)" where
  "step cfg us a ph k =
     (if \<not> carrying a then
        (if pos a = FOOD cfg then Inr (a\<lparr>carrying := True\<rparr>, ph, k)
         else
           (case move cfg us a ph k of
              Inl e \<Rightarrow> Inl e
            | Inr (a', k') \<Rightarrow> Inr (a', ph, k')))
      else
        (if pos a = NEST cfg then Inr (a\<lparr>carrying := False\<rparr>, ph, k)
         else
           (case move cfg us a ph k of
              Inl e \<Rightarrow> Inl e
            | Inr (a', k') \<Rightarrow>
                (case cell_update (\<lambda>v. v + DEPOSIT cfg) ph (pos a') of
                   Inl e \<Rightarrow> Inl e
                 | Inr ph' \<Rightarrow> Inr (a', ph', k')))))"

subsection \<open>Evaporation\<close>

text \<open>The cells in the order the two nested \<open>range\<close> loops visit them.\<close>

definition all_cells :: "config \<Rightarrow> coord list" where
  "all_cells cfg = concat (map (\<lambda>y. map (\<lambda>x. (x, y)) [0..WIDTH cfg - 1]) [0..HEIGHT cfg - 1])"

fun update_cells :: "(real \<Rightarrow> real) \<Rightarrow> coord list \<Rightarrow> field \<Rightarrow> error + field" where
  "update_cells f [] ph = Inr ph"
| "update_cells f (c # cs) ph =
     (case cell_update f ph c of
        Inl e \<Rightarrow> Inl e
      | Inr ph' \<Rightarrow> update_cells f cs ph')"

definition evaporate :: "config \<Rightarrow> field \<Rightarrow> error + field" where
  "evaporate cfg ph = update_cells (\<lambda>v. v * (1 - EVAPORATION cfg)) (all_cells cfg) ph"

subsection \<open>The simulation\<close>

text \<open>
  \<open>stats\<close> is a \<open>defaultdict(int)\<close>: every key reads 0 until it is incremented.
\<close>

type_synonym stats = "string \<Rightarrow> int"

definition empty_stats :: stats where
  "empty_stats name = 0"

definition record_event :: "stats \<Rightarrow> string \<Rightarrow> stats" where
  "record_event st name = st(name := st name + 1)"

text \<open>
  The loop \<open>for ant in ants\<close>, for the ants still to be stepped in this tick;
  \<open>pos_before\<close> and \<open>pos_after\<close> are the source's \<open>before\<close> and \<open>after\<close>.
\<close>

fun ants_loop ::
  "config \<Rightarrow> (nat \<Rightarrow> real) \<Rightarrow> ant list \<Rightarrow> field \<Rightarrow> nat \<Rightarrow> stats \<Rightarrow>
   error + (ant list \<times> field \<times> nat \<times> stats)" where
  "ants_loop cfg us [] ph k st = Inr ([], ph, k, st)"
| "ants_loop cfg us (a # as) ph k st =
     (let pos_before = pos a in
      case step cfg us a ph k of
        Inl e \<Rightarrow> Inl e
      | Inr (a', ph', k') \<Rightarrow>
          (let pos_after = pos a';
               st1 = (if \<not> carrying a' \<and> pos_after = FOOD cfg \<and> pos_before \<noteq> FOOD cfg
                      then record_event st ''found_food'' else st);
               st2 = (if carrying a' \<and> pos_after = NEST cfg \<and> pos_before \<noteq> NEST cfg
                      then record_event st1 ''returned'' else st1)
           in case ants_loop cfg us as ph' k' st2 of
                Inl e \<Rightarrow> Inl e
              | Inr (as', rest) \<Rightarrow> Inr (a' # as', rest)))"

record sim =
  pheromones :: field
  ants :: "ant list"
  stats :: stats
  drawn :: nat

text \<open>The loop \<open>for step in range(steps)\<close>, with \<open>n\<close> ticks left.\<close>

fun ticks :: "config \<Rightarrow> (nat \<Rightarrow> real) \<Rightarrow> nat \<Rightarrow> sim \<Rightarrow> error + sim" where
  "ticks cfg us 0 s = Inr s"
| "ticks cfg us (Suc n) s =
     (case ants_loop cfg us (ants s) (pheromones s) (drawn s) (stats s) of
        Inl e \<Rightarrow> Inl e
      | Inr (as', ph', k', st') \<Rightarrow>
          (case evaporate cfg ph' of
             Inl e \<Rightarrow> Inl e
           | Inr ph'' \<Rightarrow>
               ticks cfg us n \<lparr>pheromones = ph'', ants = as', stats = st', drawn = k'\<rparr>))"

definition zero_field :: "config \<Rightarrow> field" where
  "zero_field cfg = replicate (nat (HEIGHT cfg)) (replicate (nat (WIDTH cfg)) 0)"

definition init_sim :: "config \<Rightarrow> sim" where
  "init_sim cfg =
     \<lparr>pheromones = zero_field cfg,
      ants = map (new_ant cfg) [0..ANT_COUNT cfg - 1],
      stats = empty_stats,
      drawn = 0\<rparr>"

text \<open>
  \<open>simulate(steps)\<close>, up to the three \<open>print\<close> lines, which show \<open>steps\<close>,
  \<open>stats['found_food']\<close> and \<open>stats['returned']\<close> of the final state.
\<close>

definition simulate :: "config \<Rightarrow> (nat \<Rightarrow> real) \<Rightarrow> int \<Rightarrow> error + sim" where
  "simulate cfg us steps = ticks cfg us (nat steps) (init_sim cfg)"

section \<open>Notions used in the statements\<close>

subsection \<open>Well-formed states\<close>

text \<open>The field has \<open>HEIGHT\<close> rows of \<open>WIDTH\<close> entries, as \<open>simulate\<close> builds it.\<close>

definition grid_shape :: "config \<Rightarrow> field \<Rightarrow> bool" where
  "grid_shape cfg ph \<longleftrightarrow>
     length ph = nat (HEIGHT cfg) \<and> (\<forall>row \<in> set ph. length row = nat (WIDTH cfg))"

text \<open>The entry of an in-grid cell, and the field with one entry replaced.\<close>

definition val :: "field \<Rightarrow> coord \<Rightarrow> real" where
  "val ph c = ph ! nat (snd c) ! nat (fst c)"

definition put :: "field \<Rightarrow> coord \<Rightarrow> real \<Rightarrow> field" where
  "put ph c v = ph[nat (snd c) := (ph ! nat (snd c))[nat (fst c) := v]]"

text \<open>An ant stands in the grid or still where it was created.\<close>

definition ant_ok :: "config \<Rightarrow> ant \<Rightarrow> bool" where
  "ant_ok cfg a \<longleftrightarrow> in_grid cfg (pos a) \<or> pos a = NEST cfg"

definition sim_ok :: "config \<Rightarrow> sim \<Rightarrow> bool" where
  "sim_ok cfg s \<longleftrightarrow> grid_shape cfg (pheromones s) \<and> (\<forall>a \<in> set (ants s). ant_ok cfg a)"

subsection \<open>One ant's bookkeeping and one tick, named\<close>

text \<open>
  The two counter updates \<open>simulate\<close> makes after stepping one ant, and the body
  of its outer loop; \<open>ants_loop_step\<close> and \<open>ticks_tick\<close> below show that they are
  what \<open>ants_loop\<close> and \<open>ticks\<close> do.
\<close>

definition tally :: "config \<Rightarrow> ant \<Rightarrow> ant \<Rightarrow> stats \<Rightarrow> stats" where
  "tally cfg a a' st =
     (let st1 = (if \<not> carrying a' \<and> pos a' = FOOD cfg \<and> pos a \<noteq> FOOD cfg
                 then record_event st ''found_food'' else st)
      in if carrying a' \<and> pos a' = NEST cfg \<and> pos a \<noteq> NEST cfg
         then record_event st1 ''returned'' else st1)"

definition tick :: "config \<Rightarrow> (nat \<Rightarrow> real) \<Rightarrow> sim \<Rightarrow> error + sim" where
  "tick cfg us s =
     (case ants_loop cfg us (ants s) (pheromones s) (drawn s) (stats s) of
        Inl e \<Rightarrow> Inl e
      | Inr (as', ph', k', st') \<Rightarrow>
          (case evaporate cfg ph' of
             Inl e \<Rightarrow> Inl e
           | Inr ph'' \<Rightarrow> Inr \<lparr>pheromones = ph'', ants = as', stats = st', drawn = k'\<rparr>))"

subsection \<open>Concrete configurations and draws\<close>

definition const_draws :: "real \<Rightarrow> nat \<Rightarrow> real" where
  "const_draws u k = u"

text \<open>A 1 by 1 grid; \<open>FOOD\<close> by the source's formula \<open>(WIDTH - 1, HEIGHT - 1)\<close>.\<close>

definition grid_1x1 :: config where
  "grid_1x1 =
     \<lparr>WIDTH = 1, HEIGHT = 1, ANT_COUNT = 2, NEST = (0, 0), FOOD = (1 - 1, 1 - 1),
      EVAPORATION = 2 / 100, DEPOSIT = 1\<rparr>"

text \<open>Dimensions, ant count, rate, nest and food all out of their ranges.\<close>

definition bad_config :: config where
  "bad_config =
     \<lparr>WIDTH = 0, HEIGHT = - 3, ANT_COUNT = - 1, NEST = (5, 5), FOOD = (- 1, - 4),
      EVAPORATION = 2, DEPOSIT = 1\<rparr>"

text \<open>The 3 by 1 corridor with one ant.\<close>

definition corridor :: config where
  "corridor =
     \<lparr>WIDTH = 3, HEIGHT = 1, ANT_COUNT = 1, NEST = (0, 0), FOOD = (3 - 1, 1 - 1),
      EVAPORATION = 2 / 100, DEPOSIT = 1\<rparr>"

text \<open>A draw sequence that starts with the given draws and continues with 0.\<close>

definition prefix_draws :: "real list \<Rightarrow> nat \<Rightarrow> real" where
  "prefix_draws xs k = (if k < length xs then xs ! k else 0)"

text \<open>Draws that take the ant of the corridor to the food and back to the nest.\<close>

definition round_trip :: "nat \<Rightarrow> real" where
  "round_trip = prefix_draws [0, 3 / 4, 0, 0]"

subsection \<open>Configuration errors\<close>

text \<open>
  The configurations the specification calls errors: a non-positive dimension, a
  negative ant count, an evaporation rate outside [0,1), a nest or food outside
  the grid, or a 1 by 1 grid.
\<close>

definition config_error :: "config \<Rightarrow> bool" where
  "config_error cfg \<longleftrightarrow>
     WIDTH cfg \<le> 0 \<or> HEIGHT cfg \<le> 0 \<or> ANT_COUNT cfg < 0 \<or>
     EVAPORATION cfg < 0 \<or> 1 \<le> EVAPORATION cfg \<or>
     \<not> in_grid cfg (NEST cfg) \<or> \<not> in_grid cfg (FOOD cfg) \<or>
     (WIDTH cfg = 1 \<and> HEIGHT cfg = 1)"

subsection \<open>Neighbours and non-negative fields\<close>

text \<open>
  The in-grid orthogonal neighbours of a position, in the order of \<open>DIRECTIONS\<close>:
  the list \<open>candidates\<close> that \<open>Ant.move\<close> builds.
\<close>

definition candidates :: "config \<Rightarrow> coord \<Rightarrow> coord list" where
  "candidates cfg p =
     filter (in_grid cfg) (map (\<lambda>d. (fst p + fst d, snd p + snd d)) DIRECTIONS)"

definition nonneg :: "field \<Rightarrow> bool" where
  "nonneg ph \<longleftrightarrow> (\<forall>row \<in> set ph. \<forall>v \<in> set row. 0 \<le> v)"

subsection \<open>Sequences of field operations\<close>

text \<open>
  The two writes the program makes to the field, \<open>pheromones[y][x] += DEPOSIT\<close> of
  \<open>Ant.step\<close> and \<open>evaporate\<close>, applied in any order; a deposit outside the lists
  raises and ends the sequence.
\<close>

datatype field_op = Deposit coord | EvaporateAll

fun apply_ops :: "config \<Rightarrow> field_op list \<Rightarrow> field \<Rightarrow> error + field" where
  "apply_ops cfg [] ph = Inr ph"
| "apply_ops cfg (Deposit c # ops) ph =
     (case cell_update (\<lambda>v. v + DEPOSIT cfg) ph c of
        Inl e \<Rightarrow> Inl e
      | Inr ph' \<Rightarrow> apply_ops cfg ops ph')"
| "apply_ops cfg (EvaporateAll # ops) ph =
     (case evaporate cfg ph of
        Inl e \<Rightarrow> Inl e
      | Inr ph' \<Rightarrow> apply_ops cfg ops ph')"

subsection \<open>Pheromone mass\<close>

text \<open>
  The sum of all cells, and the value \<open>ANT_COUNT * DEPOSIT * (1 - EVAPORATION) /
  EVAPORATION\<close>.
\<close>

definition total :: "field \<Rightarrow> real" where
  "total ph = sum_list (map sum_list ph)"


subsection \<open>Events of a run\<close>

text \<open>
  The number of ant steps of a tick, and of a run, at which a relation between
  the ant before its step and the ant after it holds. The steps are those that
  \<open>ants_loop\<close> and \<open>ticks\<close> take, on the same field and draws.
\<close>

fun ants_events ::
  "(ant \<Rightarrow> ant \<Rightarrow> bool) \<Rightarrow> config \<Rightarrow> (nat \<Rightarrow> real) \<Rightarrow> ant list \<Rightarrow> field \<Rightarrow> nat \<Rightarrow> nat" where
  "ants_events P cfg us [] ph k = 0"
| "ants_events P cfg us (a # as) ph k =
     (case step cfg us a ph k of
        Inl e \<Rightarrow> 0
      | Inr (a', ph', k') \<Rightarrow> of_bool (P a a') + ants_events P cfg us as ph' k')"

fun run_events ::
  "(ant \<Rightarrow> ant \<Rightarrow> bool) \<Rightarrow> config \<Rightarrow> (nat \<Rightarrow> real) \<Rightarrow> nat \<Rightarrow> sim \<Rightarrow> nat" where
  "run_events P cfg us 0 s = 0"
| "run_events P cfg us (Suc n) s =
     ants_events P cfg us (ants s) (pheromones s) (drawn s) +
     (case tick cfg us s of Inl e \<Rightarrow> 0 | Inr s' \<Rightarrow> run_events P cfg us n s')"

definition events :: "(ant \<Rightarrow> ant \<Rightarrow> bool) \<Rightarrow> config \<Rightarrow> (nat \<Rightarrow> real) \<Rightarrow> int \<Rightarrow> nat" where
  "events P cfg us steps = run_events P cfg us (nat steps) (init_sim cfg)"

text \<open>
  The state transitions of an ant: it starts to carry, it stops carrying. And the
  arrivals: a searching ant comes to the food from another cell, a returning ant
  comes to the nest from another cell.
\<close>

definition picked_up :: "ant \<Rightarrow> ant \<Rightarrow> bool" where
  "picked_up a a' \<longleftrightarrow> \<not> carrying a \<and> carrying a'"

definition dropped :: "ant \<Rightarrow> ant \<Rightarrow> bool" where
  "dropped a a' \<longleftrightarrow> carrying a \<and> \<not> carrying a'"

definition arrived_food :: "config \<Rightarrow> ant \<Rightarrow> ant \<Rightarrow> bool" where
  "arrived_food cfg a a' \<longleftrightarrow> \<not> carrying a \<and> pos a \<noteq> FOOD cfg \<and> pos a' = FOOD cfg"

definition arrived_nest :: "config \<Rightarrow> ant \<Rightarrow> ant \<Rightarrow> bool" where
  "arrived_nest cfg a a' \<longleftrightarrow> carrying a \<and> pos a \<noteq> NEST cfg \<and> pos a' = NEST cfg"

text \<open>Ants that stand on the food without carrying yet, or on the nest still carrying.\<close>

definition on_food :: "config \<Rightarrow> ant \<Rightarrow> bool" where
  "on_food cfg a \<longleftrightarrow> \<not> carrying a \<and> pos a = FOOD cfg"

definition on_nest :: "config \<Rightarrow> ant \<Rightarrow> bool" where
  "on_nest cfg a \<longleftrightarrow> carrying a \<and> pos a = NEST cfg"

definition count :: "('a \<Rightarrow> bool) \<Rightarrow> 'a list \<Rightarrow> nat" where
  "count P xs = length (filter P xs)"

section \<open>Basic facts\<close>

text \<open>Unfolding a run on concrete data.\<close>

lemmas run_defs =
  simulate_def init_sim_def zero_field_def new_ant_def step_def move_def DIRECTIONS_def
  in_grid_def cell_def py_index_def py_get_def py_set_def cell_update_def uniform_def evaporate_def
  all_cells_def record_event_def upto.simps const_draws_def eval_nat_numeral

lemma py_get_nat: "0 \<le> i \<Longrightarrow> i < int (length xs) \<Longrightarrow> py_get xs i = Inr (xs ! nat i)"
  by (simp add: py_get_def py_index_def)

lemma py_set_nat: "0 \<le> i \<Longrightarrow> i < int (length xs) \<Longrightarrow> py_set xs i v = Inr (xs[nat i := v])"
  by (simp add: py_set_def py_index_def)

lemma grid_row:
  assumes "grid_shape cfg ph" "in_grid cfg c"
  shows "nat (snd c) < length ph" "length (ph ! nat (snd c)) = nat (WIDTH cfg)"
    "nat (fst c) < length (ph ! nat (snd c))"
proof -
  show 1: "nat (snd c) < length ph"
    using assms by (simp add: grid_shape_def in_grid_def)
  then have "ph ! nat (snd c) \<in> set ph" by simp
  then show 2: "length (ph ! nat (snd c)) = nat (WIDTH cfg)"
    using assms(1) by (simp add: grid_shape_def)
  show "nat (fst c) < length (ph ! nat (snd c))"
    using assms(2) 2 by (simp add: in_grid_def)
qed

lemma cell_in_grid:
  assumes "grid_shape cfg ph" "in_grid cfg c"
  shows "cell ph c = Inr (val ph c)"
proof -
  have "py_get ph (snd c) = Inr (ph ! nat (snd c))"
    using grid_row(1)[OF assms] assms(2) by (intro py_get_nat) (simp_all add: in_grid_def)
  moreover have "py_get (ph ! nat (snd c)) (fst c) = Inr (ph ! nat (snd c) ! nat (fst c))"
    using grid_row(3)[OF assms] assms(2) by (intro py_get_nat) (simp_all add: in_grid_def)
  ultimately show ?thesis by (simp add: cell_def val_def)
qed

lemma cell_update_in_grid:
  assumes "grid_shape cfg ph" "in_grid cfg c"
  shows "cell_update f ph c = Inr (put ph c (f (val ph c)))"
proof -
  let ?row = "ph ! nat (snd c)"
  have 1: "py_get ph (snd c) = Inr ?row"
    using grid_row(1)[OF assms] assms(2) by (intro py_get_nat) (simp_all add: in_grid_def)
  have 2: "py_get ?row (fst c) = Inr (?row ! nat (fst c))"
    using grid_row(3)[OF assms] assms(2) by (intro py_get_nat) (simp_all add: in_grid_def)
  have 3: "py_set ?row (fst c) v = Inr (?row[nat (fst c) := v])" for v
    using grid_row(3)[OF assms] assms(2) by (intro py_set_nat) (simp_all add: in_grid_def)
  have 4: "py_set ph (snd c) r = Inr (ph[nat (snd c) := r])" for r
    using grid_row(1)[OF assms] assms(2) by (intro py_set_nat) (simp_all add: in_grid_def)
  show ?thesis by (simp add: cell_update_def 1 2 3 4 val_def put_def)
qed

lemma grid_shape_put:
  assumes "grid_shape cfg ph" "in_grid cfg c"
  shows "grid_shape cfg (put ph c v)"
proof -
  have "length ((ph ! nat (snd c))[nat (fst c) := v]) = nat (WIDTH cfg)"
    using grid_row(2)[OF assms] by simp
  then show ?thesis
    using assms(1) unfolding grid_shape_def put_def
    by (auto dest!: set_update_subset_insert[THEN subsetD])
qed

lemma val_put:
  assumes "grid_shape cfg ph" "in_grid cfg c" "in_grid cfg c'"
  shows "val (put ph c v) c' = (if c' = c then v else val ph c')"
proof (cases "snd c' = snd c")
  case True
  have "nat (fst c') = nat (fst c) \<longleftrightarrow> fst c' = fst c"
    using assms(2,3) by (auto simp: in_grid_def)
  then show ?thesis
    using True grid_row[OF assms(1,2)] grid_row[OF assms(1,3)]
    by (auto simp: val_def put_def prod_eq_iff nth_list_update)
next
  case False
  then have "nat (snd c') \<noteq> nat (snd c)"
    using assms(2,3) by (auto simp: in_grid_def)
  then show ?thesis
    using False by (auto simp: val_def put_def)
qed

lemma neighbours_ok:
  assumes "grid_shape cfg ph"
  shows "\<exists>cws. neighbours cfg ph p ds = Inr cws \<and>
           map fst cws = filter (in_grid cfg) (map (\<lambda>d. (fst p + fst d, snd p + snd d)) ds) \<and>
           (\<forall>x \<in> set cws. snd x = 1 + val ph (fst x))"
proof (induction ds)
  case Nil
  show ?case by simp
next
  case (Cons d ds)
  then obtain cws where cws: "neighbours cfg ph p ds = Inr cws"
      "map fst cws = filter (in_grid cfg) (map (\<lambda>d. (fst p + fst d, snd p + snd d)) ds)"
      "(\<forall>x \<in> set cws. snd x = 1 + val ph (fst x))"
    by blast
  show ?case
  proof (cases "in_grid cfg (fst p + fst d, snd p + snd d)")
    case True
    with cws cell_in_grid[OF assms True] show ?thesis by (simp add: Let_def)
  next
    case False
    with cws show ?thesis by (simp add: Let_def)
  qed
qed

lemma pick_mem: "pick r c cws = Some n \<Longrightarrow> n \<in> fst ` set cws"
  by (induction r c cws rule: pick.induct) (auto simp: Let_def split: if_splits)


lemma move_ok:
  assumes "grid_shape cfg ph"
  shows "\<exists>a'. move cfg us a ph k = Inr (a', Suc k) \<and> carrying a' = carrying a \<and>
           ant_id a' = ant_id a \<and> (pos a' = pos a \<or> in_grid cfg (pos a'))"
proof -
  obtain cws where cws: "neighbours cfg ph (pos a) DIRECTIONS = Inr cws"
      "map fst cws = filter (in_grid cfg) (map (\<lambda>d. (fst (pos a) + fst d, snd (pos a) + snd d)) DIRECTIONS)"
    using neighbours_ok[OF assms] by blast
  show ?thesis
  proof (cases "pick (uniform 0 (sum_list (map snd cws)) (us k)) 0 cws")
    case None
    with cws show ?thesis by (simp add: move_def Let_def)
  next
    case (Some n)
    from pick_mem[OF Some] have "n \<in> set (map fst cws)" by simp
    then have "in_grid cfg n" unfolding cws(2) by simp
    with cws Some show ?thesis by (simp add: move_def Let_def)
  qed
qed

lemma step_ok:
  assumes "grid_shape cfg ph" "ant_ok cfg a"
  shows "\<exists>a' ph' k'. step cfg us a ph k = Inr (a', ph', k') \<and> grid_shape cfg ph' \<and> ant_ok cfg a'
           \<and> k \<le> k' \<and> k' \<le> Suc k"
proof -
  obtain a' where m: "move cfg us a ph k = Inr (a', Suc k)" "carrying a' = carrying a"
      "pos a' = pos a \<or> in_grid cfg (pos a')"
    using move_ok[OF assms(1)] by blast
  have ok': "ant_ok cfg a'" using m(3) assms(2) by (auto simp: ant_ok_def)
  show ?thesis
  proof (cases "carrying a \<and> pos a \<noteq> NEST cfg")
    case True
    then have "in_grid cfg (pos a')" using m(3) assms(2) by (auto simp: ant_ok_def)
    with True m ok' cell_update_in_grid[OF assms(1) this] grid_shape_put[OF assms(1) this]
    show ?thesis by (simp add: step_def)
  next
    case False
    with m ok' assms show ?thesis by (auto simp: step_def ant_ok_def)
  qed
qed

lemma ants_loop_step:
  "step cfg us a ph k = Inr (a', ph', k') \<Longrightarrow>
   ants_loop cfg us (a # as) ph k st =
     (case ants_loop cfg us as ph' k' (tally cfg a a' st) of
        Inl e \<Rightarrow> Inl e
      | Inr (as', rest) \<Rightarrow> Inr (a' # as', rest))"
  by (simp add: tally_def Let_def)

lemma ticks_tick:
  "ticks cfg us (Suc n) s = (case tick cfg us s of Inl e \<Rightarrow> Inl e | Inr s' \<Rightarrow> ticks cfg us n s')"
  by (simp add: tick_def split: sum.splits prod.splits)

lemma ants_loop_ok:
  assumes "grid_shape cfg ph" "\<forall>a \<in> set as. ant_ok cfg a"
  shows "\<exists>as' ph' k' st'. ants_loop cfg us as ph k st = Inr (as', ph', k', st') \<and>
           grid_shape cfg ph' \<and> (\<forall>a \<in> set as'. ant_ok cfg a) \<and> length as' = length as \<and>
           k \<le> k' \<and> k' \<le> k + length as"
  using assms
proof (induction as arbitrary: ph k st)
  case Nil
  then show ?case by simp
next
  case (Cons a as)
  from Cons.prems obtain a' ph' k' where
    s: "step cfg us a ph k = Inr (a', ph', k')" "grid_shape cfg ph'" "ant_ok cfg a'"
       "k \<le> k'" "k' \<le> Suc k"
    using step_ok[of cfg ph a us k] by auto
  from Cons.IH[OF s(2), of k' "tally cfg a a' st"] Cons.prems obtain as' ph'' k'' st' where
    r: "ants_loop cfg us as ph' k' (tally cfg a a' st) = Inr (as', ph'', k'', st')"
       "grid_shape cfg ph''" "\<forall>a \<in> set as'. ant_ok cfg a" "length as' = length as"
       "k' \<le> k''" "k'' \<le> k' + length as"
    by auto
  show ?case
    using s r by (simp add: ants_loop_step[OF s(1)] del: ants_loop.simps)
qed

lemma update_cells_ok:
  assumes "grid_shape cfg ph" "\<forall>c \<in> set cs. in_grid cfg c" "distinct cs"
  shows "\<exists>ph'. update_cells f cs ph = Inr ph' \<and> grid_shape cfg ph' \<and>
           (\<forall>c. in_grid cfg c \<longrightarrow> val ph' c = (if c \<in> set cs then f (val ph c) else val ph c))"
  using assms
proof (induction cs arbitrary: ph)
  case Nil
  then show ?case by simp
next
  case (Cons c cs)
  let ?ph = "put ph c (f (val ph c))"
  have c: "in_grid cfg c" "c \<notin> set cs" using Cons.prems by auto
  have u: "cell_update f ph c = Inr ?ph"
    using cell_update_in_grid[OF Cons.prems(1) c(1)] .
  have g: "grid_shape cfg ?ph"
    using grid_shape_put[OF Cons.prems(1) c(1)] .
  from Cons.IH[OF g] Cons.prems obtain ph' where
    r: "update_cells f cs ?ph = Inr ph'" "grid_shape cfg ph'"
       "\<And>c'. in_grid cfg c' \<Longrightarrow> val ph' c' = (if c' \<in> set cs then f (val ?ph c') else val ?ph c')"
    by auto
  have "val ph' c' = (if c' \<in> set (c # cs) then f (val ph c') else val ph c')"
    if "in_grid cfg c'" for c'
    using r(3)[OF that] val_put[OF Cons.prems(1) c(1) that] c(2) by auto
  with u r(1,2) show ?case by simp
qed

lemma field_ext:
  assumes "grid_shape cfg ph" "grid_shape cfg ph'"
    and "\<And>c. in_grid cfg c \<Longrightarrow> val ph' c = g (val ph c)"
  shows "ph' = map (map g) ph"
proof (rule nth_equalityI)
  show "length ph' = length (map (map g) ph)"
    using assms(1,2) by (simp add: grid_shape_def)
next
  fix i assume i: "i < length ph'"
  then have i': "i < length ph" "i < nat (HEIGHT cfg)"
    using assms(1,2) by (simp_all add: grid_shape_def)
  have len: "length (ph' ! i) = nat (WIDTH cfg)" "length (ph ! i) = nat (WIDTH cfg)"
    using assms(1,2) i i' by (simp_all add: grid_shape_def)
  have "ph' ! i = map g (ph ! i)"
  proof (rule nth_equalityI)
    show "length (ph' ! i) = length (map g (ph ! i))" using len by simp
  next
    fix j assume "j < length (ph' ! i)"
    then have j: "j < nat (WIDTH cfg)" using len by simp
    have "in_grid cfg (int j, int i)" using i' j by (simp add: in_grid_def) linarith
    from assms(3)[OF this] show "ph' ! i ! j = map g (ph ! i) ! j"
      using j len by (simp add: val_def)
  qed
  then show "ph' ! i = map (map g) ph ! i" using i' by simp
qed

lemma set_all_cells: "set (all_cells cfg) = {c. in_grid cfg c}"
  by (auto simp: all_cells_def in_grid_def)

lemma distinct_rows:
  "distinct xs \<Longrightarrow> distinct ys \<Longrightarrow> distinct (concat (map (\<lambda>y. map (\<lambda>x. (x, y)) xs) ys))"
  by (induction ys) (auto simp: distinct_map inj_on_def)

lemma distinct_all_cells: "distinct (all_cells cfg)"
  unfolding all_cells_def by (rule distinct_rows) simp_all

lemma evaporate_ok:
  assumes "grid_shape cfg ph"
  shows "evaporate cfg ph = Inr (map (map (\<lambda>v. v * (1 - EVAPORATION cfg))) ph)"
proof -
  obtain ph' where
    r: "update_cells (\<lambda>v. v * (1 - EVAPORATION cfg)) (all_cells cfg) ph = Inr ph'"
       "grid_shape cfg ph'"
       "\<forall>c. in_grid cfg c \<longrightarrow> val ph' c =
          (if c \<in> set (all_cells cfg) then val ph c * (1 - EVAPORATION cfg) else val ph c)"
    using update_cells_ok[OF assms, of "all_cells cfg"] distinct_all_cells set_all_cells
    by blast
  have "val ph' c = val ph c * (1 - EVAPORATION cfg)" if "in_grid cfg c" for c
    using r(3) that by (cases c) (simp add: set_all_cells)
  then have "ph' = map (map (\<lambda>v. v * (1 - EVAPORATION cfg))) ph"
    by (rule field_ext[OF assms r(2)])
  with r(1) show ?thesis by (simp add: evaporate_def)
qed

lemma grid_shape_map: "grid_shape cfg ph \<Longrightarrow> grid_shape cfg (map (map g) ph)"
  by (simp add: grid_shape_def)

lemma tick_ok:
  assumes "sim_ok cfg s"
  shows "\<exists>s'. tick cfg us s = Inr s' \<and> sim_ok cfg s' \<and> length (ants s') = length (ants s) \<and>
           drawn s \<le> drawn s' \<and> drawn s' \<le> drawn s + length (ants s)"
proof -
  from assms obtain as' ph' k' st' where
    r: "ants_loop cfg us (ants s) (pheromones s) (drawn s) (stats s) = Inr (as', ph', k', st')"
       "grid_shape cfg ph'" "\<forall>a \<in> set as'. ant_ok cfg a" "length as' = length (ants s)"
       "drawn s \<le> k'" "k' \<le> drawn s + length (ants s)"
    unfolding sim_ok_def
    using ants_loop_ok[of cfg "pheromones s" "ants s" us "drawn s" "stats s"] by auto
  show ?thesis
    using r evaporate_ok[OF r(2)] grid_shape_map[OF r(2)]
    by (simp add: tick_def sim_ok_def)
qed

lemma ticks_ok:
  assumes "sim_ok cfg s"
  shows "\<exists>s'. ticks cfg us n s = Inr s' \<and> sim_ok cfg s' \<and> length (ants s') = length (ants s)"
  using assms
proof (induction n arbitrary: s)
  case 0
  then show ?case by simp
next
  case (Suc n)
  from tick_ok[OF Suc.prems] obtain s1 where
    t: "tick cfg us s = Inr s1" "sim_ok cfg s1" "length (ants s1) = length (ants s)"
    by blast
  from Suc.IH[OF t(2)] t show ?case
    by (simp add: ticks_tick del: ticks.simps)
qed

lemma sim_ok_init: "sim_ok cfg (init_sim cfg)"
  by (simp add: sim_ok_def init_sim_def zero_field_def grid_shape_def ant_ok_def new_ant_def)

lemma simulate_ok: "\<exists>s. simulate cfg us steps = Inr s \<and> sim_ok cfg s"
  using ticks_ok[OF sim_ok_init] unfolding simulate_def by blast

section \<open>Configuration checks\<close>

text \<open>
  Claim C2, as stated: every configuration with a non-positive dimension, a negative
  ant count, an evaporation rate outside [0,1), a nest or food outside the grid, or a
  1 by 1 grid is rejected at startup, before the field and the ants are built.
  The program has no such check. On the 1 by 1 grid, and on a configuration whose
  dimensions, ant count, rate, nest and food are all out of range, \<open>simulate(3)\<close>
  builds its state and runs the three ticks to the end.
\<close>

theorem config_error_not_rejected:
  "config_error grid_1x1 \<and>
   simulate grid_1x1 (const_draws 0) 3 =
     Inr \<lparr>pheromones = [[0]],
          ants = [\<lparr>ant_id = 0, pos = (0, 0), carrying = True\<rparr>,
                  \<lparr>ant_id = 1, pos = (0, 0), carrying = True\<rparr>],
          stats = empty_stats, drawn = 0\<rparr> \<and>
   config_error bad_config \<and>
   simulate bad_config (const_draws 0) 3 =
     Inr \<lparr>pheromones = [], ants = [], stats = empty_stats, drawn = 0\<rparr>"
  by (simp add: config_error_def run_defs grid_1x1_def bad_config_def)

text \<open>
  Claim C2, amended: no configuration is rejected. For every configuration, draw
  sequence and step count, \<open>simulate\<close> builds a field of \<open>max(HEIGHT, 0)\<close> rows and
  \<open>max(ANT_COUNT, 0)\<close> ants and runs all ticks without raising.
\<close>

theorem simulate_accepts_every_config:
  "\<exists>s. simulate cfg us steps = Inr s \<and> length (pheromones s) = nat (HEIGHT cfg) \<and>
       length (ants s) = nat (ANT_COUNT cfg)"
proof -
  obtain s where s: "ticks cfg us (nat steps) (init_sim cfg) = Inr s" "sim_ok cfg s"
      "length (ants s) = length (ants (init_sim cfg))"
    using ticks_ok[OF sim_ok_init] by blast
  have "length (ants (init_sim cfg)) = nat (ANT_COUNT cfg)"
    by (simp add: init_sim_def)
  with s show ?thesis
    by (simp add: simulate_def sim_ok_def grid_shape_def)
qed

theorem simulate_accepts_every_config_witness:
  "\<exists>s. simulate bad_config (const_draws 0) 3 = Inr s \<and> length (pheromones s) = 0 \<and>
       length (ants s) = 0"
  using simulate_accepts_every_config[of bad_config "const_draws 0" 3]
  by (simp add: bad_config_def)

section \<open>The move\<close>

lemma neighbours_fst:
  "neighbours cfg ph p ds = Inr cws \<Longrightarrow>
   map fst cws = filter (in_grid cfg) (map (\<lambda>d. (fst p + fst d, snd p + snd d)) ds)"
  by (induction ds arbitrary: cws) (auto simp: Let_def split: if_splits sum.splits)

lemma neighbours_none:
  "filter (in_grid cfg) (map (\<lambda>d. (fst p + fst d, snd p + snd d)) ds) = [] \<Longrightarrow>
   neighbours cfg ph p ds = Inr []"
  by (induction ds) (auto simp: Let_def split: if_splits)

lemma move_result:
  assumes "move cfg us a ph k = Inr (a', k')"
  shows "k' = Suc k \<and> (a' = a \<or> (\<exists>n \<in> set (candidates cfg (pos a)). a' = a\<lparr>pos := n\<rparr>))"
proof -
  from assms obtain cws where cws: "neighbours cfg ph (pos a) DIRECTIONS = Inr cws"
    by (auto simp: move_def split: sum.splits)
  have fst: "map fst cws = candidates cfg (pos a)"
    using neighbours_fst[OF cws] by (simp add: candidates_def)
  show ?thesis
  proof (cases "pick (uniform 0 (sum_list (map snd cws)) (us k)) 0 cws")
    case None
    with assms cws show ?thesis by (simp add: move_def Let_def)
  next
    case (Some n)
    from pick_mem[OF Some] have "n \<in> set (map fst cws)" by simp
    then have "n \<in> set (candidates cfg (pos a))" using fst by simp
    with assms cws Some show ?thesis by (auto simp: move_def Let_def)
  qed
qed

lemma candidates_in_grid:
  assumes "n \<in> set (candidates cfg p)"
  shows "in_grid cfg n \<and> n \<noteq> p"
proof -
  have "in_grid cfg n" and "n \<in> set (map (\<lambda>d. (fst p + fst d, snd p + snd d)) DIRECTIONS)"
    using assms by (simp_all add: candidates_def)
  then show ?thesis
    by (cases p) (auto simp: DIRECTIONS_def)
qed

lemma candidates_nonempty:
  assumes "in_grid cfg p" "2 \<le> WIDTH cfg \<or> 2 \<le> HEIGHT cfg"
  shows "candidates cfg p \<noteq> []"
proof -
  have "in_grid cfg (fst p + - 1, snd p + 0) \<or> in_grid cfg (fst p + 1, snd p + 0) \<or>
        in_grid cfg (fst p + 0, snd p + - 1) \<or> in_grid cfg (fst p + 0, snd p + 1)"
    using assms by (auto simp: in_grid_def)
  then show ?thesis
    by (auto simp: candidates_def DIRECTIONS_def filter_empty_conv)
qed

lemma candidates_empty_1x1:
  assumes "in_grid cfg p" "candidates cfg p = []"
  shows "WIDTH cfg = 1 \<and> HEIGHT cfg = 1"
proof (rule ccontr)
  assume "\<not> (WIDTH cfg = 1 \<and> HEIGHT cfg = 1)"
  with assms(1) have "2 \<le> WIDTH cfg \<or> 2 \<le> HEIGHT cfg"
    by (auto simp: in_grid_def)
  from candidates_nonempty[OF assms(1) this] assms(2) show False by simp
qed






section \<open>Steps and positions\<close>

lemma move_frozen:
  assumes "candidates cfg (pos a) = []"
  shows "move cfg us a ph k = Inr (a, Suc k)"
proof -
  have "neighbours cfg ph (pos a) DIRECTIONS = Inr []"
    using assms by (intro neighbours_none) (simp add: candidates_def)
  then show ?thesis by (simp add: move_def)
qed

lemma candidates_1x1:
  assumes "WIDTH cfg = 1" "HEIGHT cfg = 1" "in_grid cfg p"
  shows "candidates cfg p = []"
  using assms by (auto simp: candidates_def DIRECTIONS_def in_grid_def)


lemma step_transition:
  assumes "if carrying a then pos a = NEST cfg else pos a = FOOD cfg"
  shows "step cfg us a ph k = Inr (a\<lparr>carrying := \<not> carrying a\<rparr>, ph, k)"
  using assms by (simp add: step_def split: if_splits)

lemma step_result:
  assumes "step cfg us a ph k = Inr (a', ph', k')"
  shows "pos a' = pos a \<or> pos a' \<in> set (candidates cfg (pos a))"
proof (cases "if carrying a then pos a = NEST cfg else pos a = FOOD cfg")
  case True
  from step_transition[OF True, of us ph k] assms show ?thesis by simp
next
  case False
  with assms obtain k'' where "move cfg us a ph k = Inr (a', k'')"
    by (auto simp: step_def split: if_splits sum.splits)
  from move_result[OF this] show ?thesis by auto
qed

lemma step_in_grid:
  assumes "in_grid cfg (pos a)" "step cfg us a ph k = Inr (a', ph', k')"
  shows "in_grid cfg (pos a')"
  using step_result[OF assms(2)]
proof
  assume "pos a' = pos a"
  with assms(1) show ?thesis by simp
next
  assume "pos a' \<in> set (candidates cfg (pos a))"
  then show ?thesis by (simp add: candidates_in_grid)
qed

text \<open>
  Claim C10: at a position with no in-grid orthogonal neighbour, \<open>move\<close> returns
  without raising, takes its draw (from the empty range 0 to 0) and leaves the ant
  as it is. For an in-grid position this happens only on the 1 by 1 grid; there
  \<open>simulate\<close> runs to the end with every ant still on the nest.
\<close>

theorem move_without_neighbours:
  "(candidates cfg (pos a) = [] \<longrightarrow> move cfg us a ph k = Inr (a, Suc k)) \<and>
   (in_grid cfg p \<and> candidates cfg p = [] \<longrightarrow> WIDTH cfg = 1 \<and> HEIGHT cfg = 1) \<and>
   (WIDTH cfg = 1 \<and> HEIGHT cfg = 1 \<and> in_grid cfg (NEST cfg) \<longrightarrow>
      candidates cfg (NEST cfg) = [] \<and>
      (\<exists>s. simulate cfg us steps = Inr s \<and> (\<forall>b \<in> set (ants s). pos b = NEST cfg)))"
proof (intro conjI impI)
  assume "candidates cfg (pos a) = []"
  then show "move cfg us a ph k = Inr (a, Suc k)" by (rule move_frozen)
next
  assume "in_grid cfg p \<and> candidates cfg p = []"
  then show "WIDTH cfg = 1" "HEIGHT cfg = 1" using candidates_empty_1x1 by blast+
next
  assume h: "WIDTH cfg = 1 \<and> HEIGHT cfg = 1 \<and> in_grid cfg (NEST cfg)"
  then show "candidates cfg (NEST cfg) = []" by (simp add: candidates_1x1)
  obtain s where s: "simulate cfg us steps = Inr s" "sim_ok cfg s"
    using simulate_ok by blast
  have "pos b = NEST cfg" if "b \<in> set (ants s)" for b
  proof -
    from s(2) that have "in_grid cfg (pos b) \<or> pos b = NEST cfg"
      by (simp add: sim_ok_def ant_ok_def)
    with h show ?thesis by (auto simp: in_grid_def prod_eq_iff)
  qed
  with s(1) show "\<exists>s. simulate cfg us steps = Inr s \<and> (\<forall>b \<in> set (ants s). pos b = NEST cfg)"
    by blast
qed

theorem move_without_neighbours_witness:
  "candidates grid_1x1 (pos (new_ant grid_1x1 0)) = [] \<and>
   move grid_1x1 (const_draws 0) (new_ant grid_1x1 0) [[0]] 0 = Inr (new_ant grid_1x1 0, Suc 0) \<and>
   in_grid grid_1x1 (NEST grid_1x1) \<and>
   (\<exists>s. simulate grid_1x1 (const_draws 0) 3 = Inr s \<and> (\<forall>b \<in> set (ants s). pos b = NEST grid_1x1))"
proof -
  have c: "candidates grid_1x1 (pos (new_ant grid_1x1 0)) = []"
    by (simp add: candidates_def new_ant_def grid_1x1_def DIRECTIONS_def in_grid_def)
  have g: "WIDTH grid_1x1 = 1 \<and> HEIGHT grid_1x1 = 1 \<and> in_grid grid_1x1 (NEST grid_1x1)"
    by (simp add: grid_1x1_def in_grid_def)
  note t = move_without_neighbours[of grid_1x1 "new_ant grid_1x1 0" "const_draws 0" "[[0]]" 0
      "(0, 0)" 3]
  from t c have "move grid_1x1 (const_draws 0) (new_ant grid_1x1 0) [[0]] 0 = Inr (new_ant grid_1x1 0, Suc 0)"
    by blast
  moreover from t g have "\<exists>s. simulate grid_1x1 (const_draws 0) 3 = Inr s \<and>
      (\<forall>b \<in> set (ants s). pos b = NEST grid_1x1)"
    by blast
  ultimately show ?thesis using c g by blast
qed

text \<open>
  Claim C3: with the nest in the grid, after any number of ticks every ant stands
  in the grid. Each single step keeps an in-grid ant in the grid: its position is
  unchanged or one of the in-grid orthogonal neighbours, and a transition step
  (searching on the food, returning on the nest) does not move the ant.
\<close>

theorem positions_stay_in_grid:
  assumes "in_grid cfg (NEST cfg)"
  shows "(\<exists>s. simulate cfg us steps = Inr s \<and> (\<forall>b \<in> set (ants s). in_grid cfg (pos b))) \<and>
         (\<forall>a ph k a' ph' k'.
            in_grid cfg (pos a) \<and> step cfg us a ph k = Inr (a', ph', k') \<longrightarrow>
            in_grid cfg (pos a') \<and>
            (pos a' = pos a \<or> pos a' \<in> set (candidates cfg (pos a))) \<and>
            ((if carrying a then pos a = NEST cfg else pos a = FOOD cfg) \<longrightarrow> pos a' = pos a))"
proof (intro conjI allI impI)
  obtain s where s: "simulate cfg us steps = Inr s" "sim_ok cfg s"
    using simulate_ok by blast
  have "in_grid cfg (pos b)" if "b \<in> set (ants s)" for b
    using s(2) that assms by (auto simp: sim_ok_def ant_ok_def)
  with s(1) show "\<exists>s. simulate cfg us steps = Inr s \<and> (\<forall>b \<in> set (ants s). in_grid cfg (pos b))"
    by blast
next
  fix a ph k a' ph' k'
  assume h: "in_grid cfg (pos a) \<and> step cfg us a ph k = Inr (a', ph', k')"
  then show "in_grid cfg (pos a')" using step_in_grid by blast
  from h show "pos a' = pos a \<or> pos a' \<in> set (candidates cfg (pos a))"
    using step_result by blast
  assume "if carrying a then pos a = NEST cfg else pos a = FOOD cfg"
  from step_transition[OF this, of us ph k] h show "pos a' = pos a" by simp
qed

theorem positions_stay_in_grid_witness:
  "in_grid corridor (NEST corridor) \<and>
   (\<exists>s. simulate corridor (const_draws (3 / 4)) 2 = Inr s \<and>
        (\<forall>b \<in> set (ants s). in_grid corridor (pos b)))"
proof -
  have h: "in_grid corridor (NEST corridor)"
    by (simp add: in_grid_def corridor_def)
  from positions_stay_in_grid[OF h, of "const_draws (3 / 4)" 2] h show ?thesis
    by blast
qed

section \<open>The field stays non-negative\<close>

lemma ants_loop_ConsE:
  assumes "ants_loop cfg us (a # as) ph k st = Inr (as', ph', k', st')"
  obtains a1 ph1 k1 as1 where "step cfg us a ph k = Inr (a1, ph1, k1)"
    and "ants_loop cfg us as ph1 k1 (tally cfg a a1 st) = Inr (as1, ph', k', st')"
    and "as' = a1 # as1"
proof (cases "step cfg us a ph k")
  case (Inl e)
  with assms show ?thesis by simp
next
  case (Inr r)
  obtain a1 ph1 k1 where r: "r = (a1, ph1, k1)" by (cases r)
  with Inr have s: "step cfg us a ph k = Inr (a1, ph1, k1)" by simp
  from assms show ?thesis
    unfolding ants_loop_step[OF s]
    by (auto split: sum.splits intro: that[OF s])
qed

lemma tickE:
  assumes "tick cfg us s = Inr s'"
  obtains as' ph' where
    "ants_loop cfg us (ants s) (pheromones s) (drawn s) (stats s) = Inr (as', ph', drawn s', stats s')"
    and "evaporate cfg ph' = Inr (pheromones s')" and "ants s' = as'"
  using assms by (auto simp: tick_def split: sum.splits)

lemma py_index_less: "py_index n i = Some j \<Longrightarrow> j < n"
  by (auto simp: py_index_def split: if_splits)

lemma cell_update_cases:
  assumes "cell_update f ph c = Inr ph'"
  obtains j i where "j < length ph" "i < length (ph ! j)"
    "ph' = ph[j := (ph ! j)[i := f (ph ! j ! i)]]"
proof -
  from assms obtain j where j: "py_index (length ph) (snd c) = Some j"
    by (auto simp: cell_update_def py_get_def split: option.splits)
  with assms obtain i where i: "py_index (length (ph ! j)) (fst c) = Some i"
    by (auto simp: cell_update_def py_get_def split: option.splits)
  from assms j i have "ph' = ph[j := (ph ! j)[i := f (ph ! j ! i)]]"
    by (simp add: cell_update_def py_get_def py_set_def)
  with py_index_less[OF j] py_index_less[OF i] that show ?thesis by blast
qed

lemma cell_update_nonneg:
  assumes "cell_update f ph c = Inr ph'" "nonneg ph" "\<And>v. 0 \<le> v \<Longrightarrow> 0 \<le> f v"
  shows "nonneg ph'"
proof -
  from assms(1) obtain j i where ji: "j < length ph" "i < length (ph ! j)"
    "ph' = ph[j := (ph ! j)[i := f (ph ! j ! i)]]"
    by (rule cell_update_cases)
  have row: "\<forall>v \<in> set (ph ! j). 0 \<le> v"
    using assms(2) nth_mem[OF ji(1)] by (simp add: nonneg_def)
  then have "0 \<le> f (ph ! j ! i)" using ji(2) assms(3) by simp
  with row have "\<forall>v \<in> set ((ph ! j)[i := f (ph ! j ! i)]). 0 \<le> v"
    using set_update_subset_insert[of "ph ! j" i "f (ph ! j ! i)"] by auto
  with assms(2) show ?thesis
    unfolding ji(3) nonneg_def
    using set_update_subset_insert[of ph j "(ph ! j)[i := f (ph ! j ! i)]"] by auto
qed

lemma update_cells_nonneg:
  assumes "update_cells f cs ph = Inr ph'" "nonneg ph" "\<And>v. 0 \<le> v \<Longrightarrow> 0 \<le> f v"
  shows "nonneg ph'"
  using assms(1,2)
proof (induction cs arbitrary: ph)
  case Nil
  then show ?case by simp
next
  case (Cons c cs)
  from Cons.prems(1) obtain ph1 where 1: "cell_update f ph c = Inr ph1"
      "update_cells f cs ph1 = Inr ph'"
    by (auto split: sum.splits)
  from cell_update_nonneg[OF 1(1) Cons.prems(2) assms(3)] Cons.IH[OF 1(2)]
  show ?case by simp
qed

lemma evaporate_nonneg:
  assumes "evaporate cfg ph = Inr ph'" "nonneg ph" "EVAPORATION cfg \<le> 1"
  shows "nonneg ph'"
  using assms(1) unfolding evaporate_def
  by (rule update_cells_nonneg[OF _ assms(2)]) (simp add: assms(3))

lemma step_nonneg:
  assumes "step cfg us a ph k = Inr (a', ph', k')" "nonneg ph" "0 \<le> DEPOSIT cfg"
  shows "nonneg ph'"
proof (cases "carrying a \<and> pos a \<noteq> NEST cfg")
  case True
  with assms(1) have "cell_update (\<lambda>v. v + DEPOSIT cfg) ph (pos a') = Inr ph'"
    by (auto simp: step_def split: sum.splits)
  then show ?thesis
    by (rule cell_update_nonneg[OF _ assms(2)]) (simp add: assms(3))
next
  case False
  with assms(1) have "ph' = ph"
    by (auto simp: step_def split: if_splits sum.splits)
  with assms(2) show ?thesis by simp
qed

lemma ants_loop_nonneg:
  assumes "0 \<le> DEPOSIT cfg"
  shows "ants_loop cfg us as ph k st = Inr (as', ph', k', st') \<Longrightarrow> nonneg ph \<Longrightarrow> nonneg ph'"
proof (induction as arbitrary: ph k st as')
  case Nil
  then show ?case by simp
next
  case (Cons a as)
  from Cons.prems(1) obtain a1 ph1 k1 as1 where
    1: "step cfg us a ph k = Inr (a1, ph1, k1)"
       "ants_loop cfg us as ph1 k1 (tally cfg a a1 st) = Inr (as1, ph', k', st')"
    by (rule ants_loop_ConsE)
  from step_nonneg[OF 1(1) Cons.prems(2) assms] Cons.IH[OF 1(2)] show ?case by simp
qed

lemma tick_nonneg:
  assumes "0 \<le> DEPOSIT cfg" "EVAPORATION cfg \<le> 1" "tick cfg us s = Inr s'"
    "nonneg (pheromones s)"
  shows "nonneg (pheromones s')"
proof -
  from assms(3) obtain as' ph' where
    1: "ants_loop cfg us (ants s) (pheromones s) (drawn s) (stats s) = Inr (as', ph', drawn s', stats s')"
       "evaporate cfg ph' = Inr (pheromones s')"
    by (rule tickE)
  from ants_loop_nonneg[OF assms(1) 1(1) assms(4)] evaporate_nonneg[OF 1(2) _ assms(2)]
  show ?thesis by simp
qed

lemma ticks_nonneg:
  assumes "0 \<le> DEPOSIT cfg" "EVAPORATION cfg \<le> 1"
  shows "ticks cfg us n s = Inr s' \<Longrightarrow> nonneg (pheromones s) \<Longrightarrow> nonneg (pheromones s')"
proof (induction n arbitrary: s)
  case 0
  then show ?case by simp
next
  case (Suc n)
  from Suc.prems(1) obtain s1 where 1: "tick cfg us s = Inr s1" "ticks cfg us n s1 = Inr s'"
    unfolding ticks_tick by (auto split: sum.splits)
  from tick_nonneg[OF assms 1(1) Suc.prems(2)] Suc.IH[OF 1(2)] show ?case by simp
qed

lemma nonneg_zero_field: "nonneg (zero_field cfg)"
  by (simp add: nonneg_def zero_field_def)

lemma apply_ops_nonneg:
  assumes "0 \<le> DEPOSIT cfg" "EVAPORATION cfg \<le> 1"
  shows "apply_ops cfg ops ph = Inr ph' \<Longrightarrow> nonneg ph \<Longrightarrow> nonneg ph'"
proof (induction ops arbitrary: ph)
  case Nil
  then show ?case by simp
next
  case (Cons op ops)
  show ?case
  proof (cases op)
    case (Deposit c)
    with Cons.prems(1) obtain ph1 where
      1: "cell_update (\<lambda>v. v + DEPOSIT cfg) ph c = Inr ph1" "apply_ops cfg ops ph1 = Inr ph'"
      by (auto split: sum.splits)
    have "nonneg ph1"
      using 1(1) Cons.prems(2) by (rule cell_update_nonneg) (simp add: assms(1))
    with Cons.IH[OF 1(2)] show ?thesis by simp
  next
    case EvaporateAll
    with Cons.prems(1) obtain ph1 where
      1: "evaporate cfg ph = Inr ph1" "apply_ops cfg ops ph1 = Inr ph'"
      by (auto split: sum.splits)
    from evaporate_nonneg[OF 1(1) Cons.prems(2) assms(2)] Cons.IH[OF 1(2)] show ?thesis by simp
  qed
qed

text \<open>
  Claim C4: with \<open>DEPOSIT\<close> at least 0 and \<open>EVAPORATION\<close> in [0,1), every sequence
  of deposits and evaporations that starts from the all-zero field leaves every
  entry at least 0 (each prefix of a sequence is a sequence, so this holds after
  every operation), and so does every run of \<open>simulate\<close>.
\<close>

theorem field_never_negative:
  assumes "0 \<le> DEPOSIT cfg" and "0 \<le> EVAPORATION cfg" and "EVAPORATION cfg < 1"
  shows "(\<forall>ops ph. apply_ops cfg ops (zero_field cfg) = Inr ph \<longrightarrow> nonneg ph) \<and>
         (\<exists>s. simulate cfg us steps = Inr s \<and> nonneg (pheromones s))"
proof
  have e: "EVAPORATION cfg \<le> 1" using assms(3) by simp
  show "\<forall>ops ph. apply_ops cfg ops (zero_field cfg) = Inr ph \<longrightarrow> nonneg ph"
    using apply_ops_nonneg[OF assms(1) e] nonneg_zero_field by blast
  obtain s where s: "simulate cfg us steps = Inr s"
    using simulate_ok by blast
  then have "nonneg (pheromones s)"
    unfolding simulate_def
    by (rule ticks_nonneg[OF assms(1) e]) (simp add: init_sim_def nonneg_zero_field)
  with s show "\<exists>s. simulate cfg us steps = Inr s \<and> nonneg (pheromones s)" by blast
qed

theorem field_never_negative_witness:
  "0 \<le> DEPOSIT corridor \<and> 0 \<le> EVAPORATION corridor \<and> EVAPORATION corridor < 1 \<and>
   apply_ops corridor [Deposit (1, 0), EvaporateAll, Deposit (- 1, 0)] (zero_field corridor) =
     Inr [[0, 49 / 50, 1]] \<and>
   nonneg [[0, 49 / 50, 1]]"
proof -
  have h: "0 \<le> DEPOSIT corridor" "0 \<le> EVAPORATION corridor" "EVAPORATION corridor < 1"
    by (simp_all add: corridor_def)
  have r: "apply_ops corridor [Deposit (1, 0), EvaporateAll, Deposit (- 1, 0)] (zero_field corridor) =
     Inr [[0, 49 / 50, 1]]"
    by (simp add: run_defs corridor_def)
  from field_never_negative[OF h, of "const_draws 0" 0] r have "nonneg [[0, 49 / 50, 1]]"
    by blast
  with h r show ?thesis by simp
qed

section \<open>Who writes the field\<close>

lemma step_deposit:
  assumes "grid_shape cfg ph" "ant_ok cfg a" "carrying a" "pos a \<noteq> NEST cfg"
  shows "\<exists>a' k'. step cfg us a ph k = Inr (a', put ph (pos a') (val ph (pos a') + DEPOSIT cfg), k') \<and>
           in_grid cfg (pos a')"
proof -
  obtain a' where m: "move cfg us a ph k = Inr (a', Suc k)"
      "pos a' = pos a \<or> in_grid cfg (pos a')"
    using move_ok[OF assms(1)] by blast
  have g: "in_grid cfg (pos a')" using m(2) assms(2,4) by (auto simp: ant_ok_def)
  from m(1) g assms(3,4) cell_update_in_grid[OF assms(1) g] show ?thesis
    by (simp add: step_def)
qed

lemma step_no_deposit:
  assumes "grid_shape cfg ph" "\<not> (carrying a \<and> pos a \<noteq> NEST cfg)"
  shows "\<exists>a' k'. step cfg us a ph k = Inr (a', ph, k')"
proof -
  obtain a' where m: "move cfg us a ph k = Inr (a', Suc k)"
    using move_ok[OF assms(1)] by blast
  with assms(2) show ?thesis by (auto simp: step_def)
qed

text \<open>
  Claim C6: on a field of the grid's shape, a step of an ant that is searching, or
  that is returning and stands on the nest, returns the field unchanged. A step of a
  returning ant elsewhere calls \<open>move\<close> and then adds exactly \<open>DEPOSIT\<close> to the
  cell where the ant stands after the move; every other cell keeps its value.
\<close>

theorem step_field_frame:
  assumes "grid_shape cfg ph" and "ant_ok cfg a"
  shows "\<exists>a' ph' k'. step cfg us a ph k = Inr (a', ph', k') \<and>
           (if carrying a \<and> pos a \<noteq> NEST cfg
            then in_grid cfg (pos a') \<and>
                 (\<forall>c. in_grid cfg c \<longrightarrow>
                    cell ph c = Inr (val ph c) \<and>
                    cell ph' c = Inr (val ph c + (if c = pos a' then DEPOSIT cfg else 0)))
            else ph' = ph)"
proof (cases "carrying a \<and> pos a \<noteq> NEST cfg")
  case True
  then obtain a' k' where
    s: "step cfg us a ph k = Inr (a', put ph (pos a') (val ph (pos a') + DEPOSIT cfg), k')"
       "in_grid cfg (pos a')"
    using step_deposit[OF assms, of us k] by blast
  let ?ph = "put ph (pos a') (val ph (pos a') + DEPOSIT cfg)"
  have "cell ph c = Inr (val ph c) \<and>
        cell ?ph c = Inr (val ph c + (if c = pos a' then DEPOSIT cfg else 0))"
    if "in_grid cfg c" for c
    using cell_in_grid[OF grid_shape_put[OF assms(1) s(2)] that] cell_in_grid[OF assms(1) that]
      val_put[OF assms(1) s(2) that] by simp
  with s True show ?thesis by auto
next
  case False
  with step_no_deposit[OF assms(1) False, of us k] show ?thesis by auto
qed

theorem step_field_frame_witness:
  "grid_shape corridor [[0, 0, 0]] \<and>
   ant_ok corridor \<lparr>ant_id = 0, pos = (2, 0), carrying = True\<rparr> \<and>
   step corridor (const_draws (3 / 4)) \<lparr>ant_id = 0, pos = (2, 0), carrying = True\<rparr> [[0, 0, 0]] 2 =
     Inr (\<lparr>ant_id = 0, pos = (1, 0), carrying = True\<rparr>, [[0, 1, 0]], 3) \<and>
   cell [[0, 1, 0]] (1, 0) = Inr (val [[0, 0, 0]] (1, 0) + DEPOSIT corridor) \<and>
   cell [[0, 1, 0]] (2, 0) = Inr (val [[0, 0, 0]] (2, 0) + 0)"
proof -
  let ?a = "\<lparr>ant_id = 0, pos = (2, 0), carrying = True\<rparr>"
  have h: "grid_shape corridor [[0, 0, 0]]" "ant_ok corridor ?a"
    by (simp_all add: grid_shape_def ant_ok_def in_grid_def corridor_def)
  have r: "step corridor (const_draws (3 / 4)) ?a [[0, 0, 0]] 2 =
     Inr (\<lparr>ant_id = 0, pos = (1, 0), carrying = True\<rparr>, [[0, 1, 0]], 3)"
    by (simp add: run_defs corridor_def)
  have g: "in_grid corridor (1, 0)" "in_grid corridor (2, 0)"
    by (simp_all add: in_grid_def corridor_def)
  have c: "carrying ?a \<and> pos ?a \<noteq> NEST corridor" by (simp add: corridor_def)
  from step_field_frame[OF h, of "const_draws (3 / 4)" 2] r c g
  have "cell [[0, 1, 0]] (1, 0) = Inr (val [[0, 0, 0]] (1, 0) + DEPOSIT corridor)"
    and "cell [[0, 1, 0]] (2, 0) = Inr (val [[0, 0, 0]] (2, 0) + 0)"
    by auto
  with h r show ?thesis by simp
qed

section \<open>Evaporation\<close>




section \<open>Runs as functions of the draws\<close>

lemma step_draws:
  assumes "step cfg us a ph k = Inr (a', ph', k')"
  shows "k \<le> k' \<and> k' \<le> Suc k"
proof (cases "if carrying a then pos a = NEST cfg else pos a = FOOD cfg")
  case True
  from step_transition[OF True, of us ph k] assms show ?thesis by simp
next
  case False
  with assms obtain a'' k'' where m: "move cfg us a ph k = Inr (a'', k'')" and "k' = k''"
    by (auto simp: step_def split: if_splits sum.splits)
  with move_result[OF m] show ?thesis by simp
qed

lemma ants_loop_bounds:
  "ants_loop cfg us as ph k st = Inr (as', ph', k', st') \<Longrightarrow>
   length as' = length as \<and> k \<le> k' \<and> k' \<le> k + length as"
proof (induction as arbitrary: ph k st as')
  case Nil
  then show ?case by simp
next
  case (Cons a as)
  from Cons.prems obtain a1 ph1 k1 as1 where
    1: "step cfg us a ph k = Inr (a1, ph1, k1)"
       "ants_loop cfg us as ph1 k1 (tally cfg a a1 st) = Inr (as1, ph', k', st')"
       "as' = a1 # as1"
    by (rule ants_loop_ConsE)
  from step_draws[OF 1(1)] Cons.IH[OF 1(2)] 1(3) show ?case by simp
qed

lemma tick_bounds:
  assumes "tick cfg us s = Inr s'"
  shows "length (ants s') = length (ants s) \<and> drawn s \<le> drawn s' \<and>
         drawn s' \<le> drawn s + length (ants s)"
proof -
  from assms obtain as' ph' where
    1: "ants_loop cfg us (ants s) (pheromones s) (drawn s) (stats s) = Inr (as', ph', drawn s', stats s')"
       "ants s' = as'"
    by (rule tickE)
  from ants_loop_bounds[OF 1(1)] 1(2) show ?thesis by simp
qed

lemma move_cong: "us k = us' k \<Longrightarrow> move cfg us a ph k = move cfg us' a ph k"
  by (simp add: move_def Let_def split: sum.splits)

lemma step_cong: "us k = us' k \<Longrightarrow> step cfg us a ph k = step cfg us' a ph k"
  by (simp add: step_def move_cong[of us k us'])

lemma ants_loop_cong:
  "(\<And>i. k \<le> i \<Longrightarrow> i < k + length as \<Longrightarrow> us i = us' i) \<Longrightarrow>
   ants_loop cfg us as ph k st = ants_loop cfg us' as ph k st"
proof (induction as arbitrary: ph k st)
  case Nil
  then show ?case by simp
next
  case (Cons a as)
  have eq: "step cfg us a ph k = step cfg us' a ph k"
    using Cons.prems[of k] by (intro step_cong) simp
  show ?case
  proof (cases "step cfg us a ph k")
    case (Inl e)
    with eq have "step cfg us' a ph k = Inl e" by simp
    with Inl show ?thesis by simp
  next
    case (Inr r)
    obtain a1 ph1 k1 where r: "r = (a1, ph1, k1)" by (cases r)
    with Inr have s: "step cfg us a ph k = Inr (a1, ph1, k1)" by simp
    with eq have s': "step cfg us' a ph k = Inr (a1, ph1, k1)" by simp
    from step_draws[OF s] have k1: "k \<le> k1" "k1 \<le> Suc k" by simp_all
    have "ants_loop cfg us as ph1 k1 (tally cfg a a1 st) =
          ants_loop cfg us' as ph1 k1 (tally cfg a a1 st)"
      using k1 by (intro Cons.IH Cons.prems) simp_all
    then show ?thesis
      unfolding ants_loop_step[OF s] ants_loop_step[OF s'] by simp
  qed
qed

lemma tick_cong:
  assumes "\<And>i. drawn s \<le> i \<Longrightarrow> i < drawn s + length (ants s) \<Longrightarrow> us i = us' i"
  shows "tick cfg us s = tick cfg us' s"
  unfolding tick_def using ants_loop_cong[of "drawn s" "ants s" us us', OF assms] by simp

lemma ticks_cong:
  "(\<And>i. drawn s \<le> i \<Longrightarrow> i < drawn s + n * length (ants s) \<Longrightarrow> us i = us' i) \<Longrightarrow>
   ticks cfg us n s = ticks cfg us' n s"
proof (induction n arbitrary: s)
  case 0
  then show ?case by simp
next
  case (Suc n)
  have eq: "tick cfg us s = tick cfg us' s"
    using Suc.prems by (intro tick_cong) simp
  show ?case
  proof (cases "tick cfg us s")
    case (Inl e)
    with eq have "tick cfg us' s = Inl e" by simp
    with Inl show ?thesis unfolding ticks_tick by simp
  next
    case (Inr s1)
    from tick_bounds[OF Inr] have b: "length (ants s1) = length (ants s)"
      "drawn s \<le> drawn s1" "drawn s1 \<le> drawn s + length (ants s)" by simp_all
    have "ticks cfg us n s1 = ticks cfg us' n s1"
    proof (rule Suc.IH)
      fix i assume "drawn s1 \<le> i" "i < drawn s1 + n * length (ants s1)"
      with b show "us i = us' i" by (intro Suc.prems) simp_all
    qed
    moreover from Inr eq have "tick cfg us' s = Inr s1" by simp
    ultimately show ?thesis unfolding ticks_tick using Inr by simp
  qed
qed

text \<open>
  Claim C8: two runs of \<open>simulate\<close> with the same constants and step count whose
  draw sequences agree on the first \<open>steps * ANT_COUNT\<close> draws (a run takes at most
  one draw per ant and tick) both return, with the same final state: the same
  event counts, the same field, the same ants.
\<close>

theorem simulate_deterministic:
  assumes "\<forall>i < nat steps * nat (ANT_COUNT cfg). us i = us' i"
  shows "\<exists>s. simulate cfg us steps = Inr s \<and> simulate cfg us' steps = Inr s"
proof -
  have "ticks cfg us (nat steps) (init_sim cfg) = ticks cfg us' (nat steps) (init_sim cfg)"
    using assms by (intro ticks_cong) (simp add: init_sim_def)
  then have "simulate cfg us steps = simulate cfg us' steps"
    by (simp add: simulate_def)
  with simulate_ok[of cfg us steps] show ?thesis by auto
qed

theorem simulate_deterministic_witness:
  "prefix_draws [3 / 4, 3 / 4] 0 = const_draws (3 / 4) 0 \<and>
   prefix_draws [3 / 4, 3 / 4] 1 = const_draws (3 / 4) 1 \<and>
   prefix_draws [3 / 4, 3 / 4] 2 \<noteq> const_draws (3 / 4) 2 \<and>
   nat 2 * nat (ANT_COUNT corridor) = 2 \<and>
   (\<exists>s. simulate corridor (prefix_draws [3 / 4, 3 / 4]) 2 = Inr s \<and>
        simulate corridor (const_draws (3 / 4)) 2 = Inr s)"
proof -
  have h: "\<forall>i < nat 2 * nat (ANT_COUNT corridor). prefix_draws [3 / 4, 3 / 4] i = const_draws (3 / 4) i"
    by (simp add: corridor_def prefix_draws_def const_draws_def less_Suc_eq)
  have d: "prefix_draws [3 / 4, 3 / 4] 0 = const_draws (3 / 4) 0"
    "prefix_draws [3 / 4, 3 / 4] 1 = const_draws (3 / 4) 1"
    "prefix_draws [3 / 4, 3 / 4] 2 \<noteq> const_draws (3 / 4) 2"
    "nat 2 * nat (ANT_COUNT corridor) = 2"
    by (simp_all add: prefix_draws_def const_draws_def corridor_def)
  from simulate_deterministic[OF h] d show ?thesis
    by blast
qed

section \<open>Total pheromone mass\<close>











section \<open>The event counters\<close>

lemmas event_defs = events_def tick_def picked_up_def dropped_def arrived_food_def arrived_nest_def
  round_trip_def prefix_draws_def

lemma count_Nil: "count P [] = 0"
  by (simp add: count_def)

lemma count_Cons: "count P (x # xs) = of_bool (P x) + count P xs"
  by (simp add: count_def)

lemma step_carrying:
  assumes "step cfg us a ph k = Inr (a', ph', k')"
  shows "(if (if carrying a then pos a = NEST cfg else pos a = FOOD cfg)
          then pos a' = pos a \<and> carrying a' = (\<not> carrying a)
          else carrying a' = carrying a)"
proof (cases "if carrying a then pos a = NEST cfg else pos a = FOOD cfg")
  case True
  from step_transition[OF True, of us ph k] assms True show ?thesis by auto
next
  case False
  with assms obtain k'' where "move cfg us a ph k = Inr (a', k'')"
    by (auto simp: step_def split: if_splits sum.splits)
  from move_result[OF this] False show ?thesis by auto
qed

lemma tally_counts:
  assumes "step cfg us a ph k = Inr (a', ph', k')"
  shows "tally cfg a a' st ''found_food'' = st ''found_food'' + of_bool (arrived_food cfg a a')"
    and "tally cfg a a' st ''returned'' = st ''returned'' + of_bool (arrived_nest cfg a a')"
  using step_carrying[OF assms]
  by (auto simp: tally_def record_event_def arrived_food_def arrived_nest_def Let_def
      split: if_splits)

lemma step_balance:
  assumes "step cfg us a ph k = Inr (a', ph', k')" "NEST cfg \<noteq> FOOD cfg"
  shows "of_bool (arrived_food cfg a a') + of_bool (on_food cfg a) =
         of_bool (picked_up a a') + (of_bool (on_food cfg a') :: nat)"
    and "of_bool (arrived_nest cfg a a') + of_bool (on_nest cfg a) =
         of_bool (dropped a a') + (of_bool (on_nest cfg a') :: nat)"
  using step_carrying[OF assms(1)] assms(2)
  by (auto simp: arrived_food_def arrived_nest_def on_food_def on_nest_def picked_up_def
      dropped_def split: if_splits)

lemma ants_events_step:
  "step cfg us a ph k = Inr (a', ph', k') \<Longrightarrow>
   ants_events P cfg us (a # as) ph k = of_bool (P a a') + ants_events P cfg us as ph' k'"
  by simp

lemma ants_loop_counts:
  "ants_loop cfg us as ph k st = Inr (as', ph', k', st') \<Longrightarrow>
   st' ''found_food'' = st ''found_food'' + int (ants_events (arrived_food cfg) cfg us as ph k) \<and>
   st' ''returned'' = st ''returned'' + int (ants_events (arrived_nest cfg) cfg us as ph k)"
proof (induction as arbitrary: ph k st as')
  case Nil
  then show ?case by simp
next
  case (Cons a as)
  from Cons.prems obtain a1 ph1 k1 as1 where
    1: "step cfg us a ph k = Inr (a1, ph1, k1)"
       "ants_loop cfg us as ph1 k1 (tally cfg a a1 st) = Inr (as1, ph', k', st')"
    by (rule ants_loop_ConsE)
  from Cons.IH[OF 1(2)] tally_counts[OF 1(1), of st] show ?case
    unfolding ants_events_step[OF 1(1)] by simp
qed

lemma ants_loop_balance:
  assumes "NEST cfg \<noteq> FOOD cfg"
  shows "ants_loop cfg us as ph k st = Inr (as', ph', k', st') \<Longrightarrow>
   ants_events (arrived_food cfg) cfg us as ph k + count (on_food cfg) as =
     ants_events picked_up cfg us as ph k + count (on_food cfg) as' \<and>
   ants_events (arrived_nest cfg) cfg us as ph k + count (on_nest cfg) as =
     ants_events dropped cfg us as ph k + count (on_nest cfg) as'"
proof (induction as arbitrary: ph k st as')
  case Nil
  then show ?case by (simp add: count_Nil)
next
  case (Cons a as)
  from Cons.prems obtain a1 ph1 k1 as1 where
    1: "step cfg us a ph k = Inr (a1, ph1, k1)"
       "ants_loop cfg us as ph1 k1 (tally cfg a a1 st) = Inr (as1, ph', k', st')"
       "as' = a1 # as1"
    by (rule ants_loop_ConsE)
  from Cons.IH[OF 1(2)] step_balance[OF 1(1) assms] show ?case
    unfolding ants_events_step[OF 1(1)] 1(3) count_Cons by linarith
qed

lemma ants_events_le: "ants_events P cfg us as ph k \<le> length as"
proof (induction as arbitrary: ph k)
  case Nil
  show ?case by simp
next
  case (Cons a as)
  show ?case
  proof (cases "step cfg us a ph k")
    case (Inl e)
    then show ?thesis by simp
  next
    case (Inr r)
    obtain a1 ph1 k1 where "r = (a1, ph1, k1)" by (cases r)
    with Inr Cons.IH[of ph1 k1] show ?thesis by simp
  qed
qed

lemma ants_events_disj:
  assumes "\<And>a a'. \<not> (P a a' \<and> Q a a')"
  shows "ants_events (\<lambda>a a'. P a a' \<or> Q a a') cfg us as ph k =
         ants_events P cfg us as ph k + ants_events Q cfg us as ph k"
proof (induction as arbitrary: ph k)
  case Nil
  show ?case by simp
next
  case (Cons a as)
  show ?case
  proof (cases "step cfg us a ph k")
    case (Inl e)
    then show ?thesis by simp
  next
    case (Inr r)
    obtain a1 ph1 k1 where "r = (a1, ph1, k1)" by (cases r)
    with Inr Cons.IH[of ph1 k1] assms[of a a1] show ?thesis by auto
  qed
qed

lemma ticks_counts:
  "ticks cfg us n s = Inr s' \<Longrightarrow>
   stats s' ''found_food'' = stats s ''found_food'' + int (run_events (arrived_food cfg) cfg us n s) \<and>
   stats s' ''returned'' = stats s ''returned'' + int (run_events (arrived_nest cfg) cfg us n s)"
proof (induction n arbitrary: s)
  case 0
  then show ?case by simp
next
  case (Suc n)
  from Suc.prems obtain s1 where 1: "tick cfg us s = Inr s1" "ticks cfg us n s1 = Inr s'"
    unfolding ticks_tick by (auto split: sum.splits)
  from 1(1) obtain as' ph' where
    2: "ants_loop cfg us (ants s) (pheromones s) (drawn s) (stats s) = Inr (as', ph', drawn s1, stats s1)"
    by (rule tickE)
  from ants_loop_counts[OF 2] Suc.IH[OF 1(2)] 1(1) show ?case by simp
qed

lemma ticks_balance:
  assumes "NEST cfg \<noteq> FOOD cfg"
  shows "ticks cfg us n s = Inr s' \<Longrightarrow>
   run_events (arrived_food cfg) cfg us n s + count (on_food cfg) (ants s) =
     run_events picked_up cfg us n s + count (on_food cfg) (ants s') \<and>
   run_events (arrived_nest cfg) cfg us n s + count (on_nest cfg) (ants s) =
     run_events dropped cfg us n s + count (on_nest cfg) (ants s')"
proof (induction n arbitrary: s)
  case 0
  then show ?case by simp
next
  case (Suc n)
  from Suc.prems obtain s1 where 1: "tick cfg us s = Inr s1" "ticks cfg us n s1 = Inr s'"
    unfolding ticks_tick by (auto split: sum.splits)
  from 1(1) obtain as' ph' where
    2: "ants_loop cfg us (ants s) (pheromones s) (drawn s) (stats s) = Inr (as', ph', drawn s1, stats s1)"
       "ants s1 = as'"
    by (rule tickE)
  from ants_loop_balance[OF assms 2(1)] Suc.IH[OF 1(2)] 1(1) 2(2) show ?case by simp
qed

lemma run_events_le:
  "run_events P cfg us n s \<le> n * length (ants s)"
proof (induction n arbitrary: s)
  case 0
  show ?case by simp
next
  case (Suc n)
  show ?case
  proof (cases "tick cfg us s")
    case (Inl e)
    with ants_events_le[of P cfg us "ants s" "pheromones s" "drawn s"] show ?thesis by simp
  next
    case (Inr s1)
    from tick_bounds[OF Inr] have "length (ants s1) = length (ants s)" by simp
    with Suc.IH[of s1] Inr ants_events_le[of P cfg us "ants s" "pheromones s" "drawn s"]
    show ?thesis by simp
  qed
qed

lemma run_events_disj:
  assumes "\<And>a a'. \<not> (P a a' \<and> Q a a')"
  shows "run_events (\<lambda>a a'. P a a' \<or> Q a a') cfg us n s =
         run_events P cfg us n s + run_events Q cfg us n s"
proof (induction n arbitrary: s)
  case 0
  show ?case by simp
next
  case (Suc n)
  show ?case
    using Suc.IH ants_events_disj[of P Q, OF assms]
    by (cases "tick cfg us s") simp_all
qed

text \<open>
  Claim C1, as stated: \<open>found_food\<close> is the number of steps at which an ant goes
  from not carrying to carrying, \<open>returned\<close> the number of steps at which it goes
  from carrying to not carrying, each counted in the tick of the transition.
  In the corridor the ant reaches the food in tick 2: \<open>found_food\<close> is 1 after
  two ticks, and no ant has started to carry. It reaches the nest in tick 5:
  \<open>returned\<close> is 1 after five ticks, and the ant still carries.
\<close>

theorem counters_lead_transitions:
  "simulate corridor round_trip 2 =
     Inr \<lparr>pheromones = [[0, 0, 0]],
          ants = [\<lparr>ant_id = 0, pos = (2, 0), carrying = False\<rparr>],
          stats = record_event empty_stats ''found_food'', drawn = 2\<rparr> \<and>
   record_event empty_stats ''found_food'' ''found_food'' = 1 \<and>
   events picked_up corridor round_trip 2 = 0 \<and>
   simulate corridor round_trip 5 =
     Inr \<lparr>pheromones = [[49 / 50, 2401 / 2500, 0]],
          ants = [\<lparr>ant_id = 0, pos = (0, 0), carrying = True\<rparr>],
          stats = record_event (record_event empty_stats ''found_food'') ''returned'',
          drawn = 4\<rparr> \<and>
   record_event (record_event empty_stats ''found_food'') ''returned'' ''returned'' = 1 \<and>
   events dropped corridor round_trip 5 = 0"
proof -
  have "events picked_up corridor round_trip 2 = 0"
    by (simp add: event_defs run_defs corridor_def)
  moreover have "events dropped corridor round_trip 5 = 0"
    by (simp add: event_defs run_defs corridor_def)
  moreover have "simulate corridor round_trip 2 =
     Inr \<lparr>pheromones = [[0, 0, 0]],
          ants = [\<lparr>ant_id = 0, pos = (2, 0), carrying = False\<rparr>],
          stats = record_event empty_stats ''found_food'', drawn = 2\<rparr>"
    by (simp add: run_defs corridor_def round_trip_def prefix_draws_def)
  moreover have "simulate corridor round_trip 5 =
     Inr \<lparr>pheromones = [[49 / 50, 2401 / 2500, 0]],
          ants = [\<lparr>ant_id = 0, pos = (0, 0), carrying = True\<rparr>],
          stats = record_event (record_event empty_stats ''found_food'') ''returned'',
          drawn = 4\<rparr>"
    by (simp add: run_defs corridor_def round_trip_def prefix_draws_def)
  ultimately show ?thesis
    by (simp add: record_event_def empty_stats_def)
qed

text \<open>
  Claim C1, amended: \<open>found_food\<close> is the number of steps at which a searching ant
  comes to the food from another cell, and \<open>returned\<close> the number of steps at which
  a returning ant comes to the nest from another cell, each counted in the tick of the
  arrival; the ant's \<open>carrying\<close> flag changes in its next step, which is not counted.
  So, with the nest and the food on different cells, at the end of a run
  \<open>found_food\<close> is the number of transitions to carrying plus the number of ants
  on the food that do not carry yet, and \<open>returned\<close> is the number of transitions
  to not carrying plus the number of ants on the nest that still carry. A step is
  at most one event, so both counters together are at most \<open>steps * ANT_COUNT\<close>.
\<close>

theorem counters_count_arrivals:
  assumes "NEST cfg \<noteq> FOOD cfg"
  shows "\<exists>s. simulate cfg us steps = Inr s \<and>
     stats s ''found_food'' = int (events (arrived_food cfg) cfg us steps) \<and>
     stats s ''returned'' = int (events (arrived_nest cfg) cfg us steps) \<and>
     events (arrived_food cfg) cfg us steps =
       events picked_up cfg us steps + count (on_food cfg) (ants s) \<and>
     events (arrived_nest cfg) cfg us steps =
       events dropped cfg us steps + count (on_nest cfg) (ants s) \<and>
     events (arrived_food cfg) cfg us steps + events (arrived_nest cfg) cfg us steps
       \<le> nat steps * nat (ANT_COUNT cfg)"
proof -
  obtain s where s: "simulate cfg us steps = Inr s"
    using simulate_ok by blast
  then have t: "ticks cfg us (nat steps) (init_sim cfg) = Inr s"
    by (simp add: simulate_def)
  have i: "count (on_food cfg) (ants (init_sim cfg)) = 0"
    "count (on_nest cfg) (ants (init_sim cfg)) = 0"
    using assms by (simp_all add: count_def init_sim_def new_ant_def on_food_def on_nest_def)
  have st: "stats (init_sim cfg) ''found_food'' = 0" "stats (init_sim cfg) ''returned'' = 0"
    by (simp_all add: init_sim_def empty_stats_def)
  have excl: "\<not> (arrived_food cfg a a' \<and> arrived_nest cfg a a')" for a a'
    by (simp add: arrived_food_def arrived_nest_def)
  have "events (arrived_food cfg) cfg us steps + events (arrived_nest cfg) cfg us steps =
        run_events (\<lambda>a a'. arrived_food cfg a a' \<or> arrived_nest cfg a a') cfg us (nat steps) (init_sim cfg)"
    unfolding events_def using run_events_disj[of "arrived_food cfg" "arrived_nest cfg", OF excl]
    by simp
  also have "\<dots> \<le> nat steps * length (ants (init_sim cfg))"
    by (rule run_events_le)
  also have "length (ants (init_sim cfg)) = nat (ANT_COUNT cfg)"
    by (simp add: init_sim_def)
  finally have le: "events (arrived_food cfg) cfg us steps + events (arrived_nest cfg) cfg us steps
       \<le> nat steps * nat (ANT_COUNT cfg)" .
  from ticks_counts[OF t] ticks_balance[OF assms t] i st le s show ?thesis
    by (auto simp: events_def)
qed

theorem counters_count_arrivals_witness:
  "NEST corridor \<noteq> FOOD corridor \<and>
   events (arrived_food corridor) corridor round_trip 5 = 1 \<and>
   events picked_up corridor round_trip 5 = 1 \<and>
   events (arrived_nest corridor) corridor round_trip 5 = 1 \<and>
   events dropped corridor round_trip 5 = 0 \<and>
   (\<exists>s. simulate corridor round_trip 5 = Inr s \<and>
        stats s ''found_food'' = 1 \<and> stats s ''returned'' = 1 \<and>
        count (on_food corridor) (ants s) = 0 \<and> count (on_nest corridor) (ants s) = 1)"
proof -
  have h: "NEST corridor \<noteq> FOOD corridor" by (simp add: corridor_def)
  have e: "events (arrived_food corridor) corridor round_trip 5 = 1"
    "events picked_up corridor round_trip 5 = 1"
    "events (arrived_nest corridor) corridor round_trip 5 = 1"
    "events dropped corridor round_trip 5 = 0"
    by (simp_all add: event_defs run_defs corridor_def)
  from counters_count_arrivals[OF h, of round_trip 5] e h show ?thesis
    by auto
qed

end
